theory Spec2Isabelle
  imports Main
begin

section \<open>The compile-time hash map of constexpr\_hash\_map.hpp\<close>

text \<open>
  The class \<open>burda::ct::hash_map<N, K, V>\<close> keeps its entries in a
  \<open>std::array<std::pair<K, V>, N>\<close> and answers every query by a recursive scan of
  that array from the left. The model follows the header function by function.

  \<^item> The array is a list of pairs; the template parameter \<open>N\<close> is a field beside it,
    since \<open>find\<close> and \<open>contains\<close> instantiate \<open>search<0, N>\<close> with it.
  \<^item> A \<open>const_iterator\<close> is a pointer into the array; it is modelled by its offset from
    \<open>std::cbegin(data)\<close>, so that \<open>std::cend(data)\<close> is the length of the array.
  \<^item> What C++ leaves undefined (a read outside an array, a read through a reference to
    a dead object) is a value of type \<open>fault\<close>; a rejected instantiation of the
    constructor is a value of type \<open>compile_error\<close>.
  \<^item> Indices are \<open>std::size_t\<close> in the source. The only arithmetic on them is \<open>L + 1\<close>
    under the guard \<open>L < R\<close>, which cannot wrap, so they are natural numbers here.
\<close>

subsection \<open>Faults and construction errors\<close>

datatype fault = Out_of_bounds | Dangling_reference

datatype compile_error = N_should_be_positive | Elements_size_mismatch

subsection \<open>The container\<close>

record ('k, 'v) hash_map =
  N :: nat
  data :: "('k \<times> 'v) list"

text \<open>
  The constructor template takes the pack \<open>elements\<close> and initialises \<open>data\<close> with it.
  Its two \<open>static_assert\<close>s reject the instantiation when \<open>N\<close> is zero or differs from
  \<open>sizeof...(elements)\<close>; otherwise the array holds the elements in the order given.
\<close>

definition make_hash_map :: "nat \<Rightarrow> ('k \<times> 'v) list \<Rightarrow> compile_error + ('k, 'v) hash_map" where
  "make_hash_map n elements =
     (if \<not> n > 0 then Inl N_should_be_positive
      else if \<not> n = length elements then Inl Elements_size_mismatch
      else Inr \<lparr>N = n, data = elements\<rparr>)"

subsection \<open>Iterators\<close>

definition cbegin :: "('k, 'v) hash_map \<Rightarrow> nat" where
  "cbegin m = 0"

definition cend :: "('k, 'v) hash_map \<Rightarrow> nat" where
  "cend m = length (data m)"

definition begin_it :: "('k, 'v) hash_map \<Rightarrow> nat" where
  "begin_it m = cbegin m"

definition end_it :: "('k, 'v) hash_map \<Rightarrow> nat" where
  "end_it m = cend m"

text \<open>\<open>*it\<close>: reading the entry an iterator points to; the end iterator points to none.\<close>

definition deref :: "('k, 'v) hash_map \<Rightarrow> nat \<Rightarrow> fault + ('k \<times> 'v)" where
  "deref m it = (if it < length (data m) then Inr (data m ! it) else Inl Out_of_bounds)"

subsection \<open>Key equality\<close>

text \<open>
  The member template \<open>equal(const T&, const T&)\<close> is \<open>a == b\<close> of the key type.
\<close>

definition equal_value :: "'k \<Rightarrow> 'k \<Rightarrow> fault + bool" where
  "equal_value a b = Inr (a = b)"

text \<open>
  The overload \<open>equal(char const*, char const*)\<close> is chosen for \<open>K = const char*\<close>. It
  reads memory, so the model has the character arrays of the program as a list of
  arrays, and a \<open>char const*\<close> is an array's number with an offset into that array.
  Two string literals are two arrays. A read outside the array is a fault.
\<close>

type_synonym memory = "char list list"

type_synonym char_ptr = "nat \<times> nat"

definition in_bounds :: "memory \<Rightarrow> char_ptr \<Rightarrow> bool" where
  "in_bounds mem p = (fst p < length mem \<and> snd p < length (mem ! fst p))"

definition peek :: "memory \<Rightarrow> char_ptr \<Rightarrow> char" where
  "peek mem p = mem ! fst p ! snd p"

definition advance :: "char_ptr \<Rightarrow> char_ptr" where
  "advance p = (fst p, snd p + 1)"

function equal_cstr :: "memory \<Rightarrow> char_ptr \<Rightarrow> char_ptr \<Rightarrow> fault + bool" where
  "equal_cstr mem a b =
     (if in_bounds mem a \<and> in_bounds mem b then
        (if peek mem a = peek mem b then
           (if peek mem a = CHR 0x00 then Inr True
            else equal_cstr mem (advance a) (advance b))
         else Inr False)
      else Inl Out_of_bounds)"
  by pat_completeness auto
termination
  by (relation "measure (\<lambda>(mem, a, b). length (mem ! fst a) - snd a)")
     (auto simp: in_bounds_def advance_def)

declare equal_cstr.simps [simp del]

text \<open>
  Which of the two the call \<open>equal(data[L].first, key)\<close> in \<open>search\<close> means is
  settled by overload resolution on the key type \<open>K\<close>. Both arguments are lvalues of
  type \<open>const K\<close>. With \<open>K = const char*\<close> the template (with \<open>T = const char*\<close>) and
  the function \<open>equal(char const*, char const*)\<close> both take them without a
  conversion, and the function that is not a template is preferred. With
  \<open>K = char*\<close> the template (with \<open>T = char*\<close>) still takes them as they are, while
  the other function needs the qualification conversion from \<open>char*\<close> to
  \<open>char const*\<close>, so the template is the better match and the keys are compared
  with \<open>==\<close> of pointers.
\<close>

datatype char_pointer_type = Const_char_pointer | Char_pointer

definition equal_overload ::
  "char_pointer_type \<Rightarrow> memory \<Rightarrow> char_ptr \<Rightarrow> char_ptr \<Rightarrow> fault + bool" where
  "equal_overload K mem a b =
     (case K of
        Const_char_pointer \<Rightarrow> equal_cstr mem a b
      | Char_pointer \<Rightarrow> equal_value a b)"

subsection \<open>The scan\<close>

text \<open>
  \<open>search<L, R>\<close> compares \<open>data[L].first\<close> with the key and either returns
  \<open>std::next(std::cbegin(data), L)\<close> or goes on with \<open>search<L+1, R>\<close>; with \<open>L < R\<close>
  false it returns \<open>std::cend(data)\<close>. The equality is a parameter: \<open>equal_value\<close> for
  a key type compared by \<open>==\<close>, \<open>equal_overload K mem\<close> for a map whose keys are
  pointers to characters of type \<open>K\<close>.
\<close>

function search ::
  "('k \<Rightarrow> 'k \<Rightarrow> fault + bool) \<Rightarrow> ('k, 'v) hash_map \<Rightarrow> nat \<Rightarrow> nat \<Rightarrow> 'k \<Rightarrow> fault + nat" where
  "search eq m L R key =
     (if L < R then
        (if L < length (data m) then
           (case eq (fst (data m ! L)) key of
              Inl e \<Rightarrow> Inl e
            | Inr b \<Rightarrow> if b then Inr (cbegin m + L) else search eq m (L + 1) R key)
         else Inl Out_of_bounds)
      else Inr (cend m))"
  by pat_completeness auto
termination
  by (relation "measure (\<lambda>(eq, m, L, R, key). R - L)") auto

declare search.simps [simp del]

subsection \<open>The public operations\<close>

definition find_hm :: "('k \<Rightarrow> 'k \<Rightarrow> fault + bool) \<Rightarrow> ('k, 'v) hash_map \<Rightarrow> 'k \<Rightarrow> fault + nat" where
  "find_hm eq m key = search eq m 0 (N m) key"

definition contains :: "('k \<Rightarrow> 'k \<Rightarrow> fault + bool) \<Rightarrow> ('k, 'v) hash_map \<Rightarrow> 'k \<Rightarrow> fault + bool" where
  "contains eq m key =
     (case search eq m 0 (N m) key of Inl e \<Rightarrow> Inl e | Inr it \<Rightarrow> Inr (it \<noteq> cend m))"

definition size_hm :: "('k, 'v) hash_map \<Rightarrow> nat" where
  "size_hm m = length (data m)"

definition empty_hm :: "('k, 'v) hash_map \<Rightarrow> bool" where
  "empty_hm m = False"

text \<open>
  \<open>at\<close> and \<open>operator[]\<close> return a \<open>const V&\<close>. A reference is modelled by the object it
  is bound to: the \<open>second\<close> of an element of \<open>data\<close>, which lives as long as the
  container, or a temporary of the callee. In \<open>at\<close>, the statement
  \<open>return {false, {}};\<close> initialises the \<open>std::pair<bool, const V&>\<close> through
  \<open>pair(const bool&, const V&)\<close>: the \<open>{}\<close> is a value-initialised temporary \<open>V\<close> bound
  to the constructor's parameter, and it is destroyed at the end of the return
  statement. The caller therefore holds a reference to an object whose lifetime is
  over, and reading it is undefined.
\<close>

datatype 'v const_ref = Element nat | Expired_temporary 'v

fun read_ref :: "('k, 'v) hash_map \<Rightarrow> 'v const_ref \<Rightarrow> fault + 'v" where
  "read_ref m (Element i) =
     (if i < length (data m) then Inr (snd (data m ! i)) else Inl Out_of_bounds)"
| "read_ref m (Expired_temporary v) = Inl Dangling_reference"

text \<open>\<open>it->second\<close> as an lvalue: the reference to the value of the entry at \<open>it\<close>.\<close>

definition second_of :: "('k, 'v) hash_map \<Rightarrow> nat \<Rightarrow> fault + 'v const_ref" where
  "second_of m it = (if it < length (data m) then Inr (Element it) else Inl Out_of_bounds)"

text \<open>
  \<open>at\<close> takes the value-initialised \<open>V\<close> as the parameter \<open>dflt\<close>, since \<open>V\<close> is a
  template parameter.
\<close>

definition at ::
  "('k \<Rightarrow> 'k \<Rightarrow> fault + bool) \<Rightarrow> 'v \<Rightarrow> ('k, 'v) hash_map \<Rightarrow> 'k \<Rightarrow> fault + (bool \<times> 'v const_ref)" where
  "at eq dflt m key =
     (case find_hm eq m key of
        Inl e \<Rightarrow> Inl e
      | Inr it \<Rightarrow>
          if it \<noteq> cend m then
            (case second_of m it of Inl e \<Rightarrow> Inl e | Inr r \<Rightarrow> Inr (True, r))
          else Inr (False, Expired_temporary dflt))"

definition subscript ::
  "('k \<Rightarrow> 'k \<Rightarrow> fault + bool) \<Rightarrow> ('k, 'v) hash_map \<Rightarrow> 'k \<Rightarrow> fault + 'v const_ref" where
  "subscript eq m key =
     (case find_hm eq m key of Inl e \<Rightarrow> Inl e | Inr it \<Rightarrow> second_of m it)"

subsection \<open>Iteration\<close>

text \<open>
  The range-based \<open>for\<close> of main.cpp is, by the language rule,
  \<open>for (it = begin(); it != end(); ++it) { ... *it ... }\<close>. The model collects the
  entries the loop body is given.
\<close>

function for_range :: "('k, 'v) hash_map \<Rightarrow> nat \<Rightarrow> nat \<Rightarrow> fault + ('k \<times> 'v) list" where
  "for_range m it stop =
     (if it \<noteq> stop then
        (case deref m it of
           Inl e \<Rightarrow> Inl e
         | Inr p \<Rightarrow>
             (case for_range m (it + 1) stop of Inl e \<Rightarrow> Inl e | Inr ps \<Rightarrow> Inr (p # ps)))
      else Inr [])"
  by pat_completeness auto
termination
  by (relation "measure (\<lambda>(m, it, stop). length (data m) - it)")
     (auto simp: deref_def split: if_splits)

declare for_range.simps [simp del]

definition for_each :: "('k, 'v) hash_map \<Rightarrow> fault + ('k \<times> 'v) list" where
  "for_each m = for_range m (begin_it m) (end_it m)"

subsection \<open>Null-terminated strings\<close>

text \<open>
  The string a \<open>char const*\<close> denotes, in the words of the specification: the
  characters from the pointer up to and including the first terminator. A pointer
  with no terminator between it and the end of its array denotes none. This
  definition does not come from the header; \<open>equal_cstr\<close> is compared with it.
\<close>

fun spec_terminated_prefix :: "char list \<Rightarrow> char list option" where
  "spec_terminated_prefix [] = None"
| "spec_terminated_prefix (c # cs) =
     (if c = CHR 0x00 then Some [c] else map_option ((#) c) (spec_terminated_prefix cs))"

definition spec_c_str :: "memory \<Rightarrow> char_ptr \<Rightarrow> char list option" where
  "spec_c_str mem p =
     (if fst p < length mem then spec_terminated_prefix (drop (snd p) (mem ! fst p)) else None)"

subsection \<open>Counting comparisons\<close>

text \<open>
  \<open>T_search\<close> follows the recursion of \<open>search\<close> and counts the calls of \<open>equal\<close>;
  \<open>T_equal_cstr\<close> follows \<open>equal_cstr\<close> and counts its calls.
\<close>

function T_search ::
  "('k \<Rightarrow> 'k \<Rightarrow> fault + bool) \<Rightarrow> ('k, 'v) hash_map \<Rightarrow> nat \<Rightarrow> nat \<Rightarrow> 'k \<Rightarrow> nat" where
  "T_search eq m L R key =
     (if L < R then
        (if L < length (data m) then
           (case eq (fst (data m ! L)) key of
              Inl e \<Rightarrow> 1
            | Inr b \<Rightarrow> if b then 1 else 1 + T_search eq m (L + 1) R key)
         else 0)
      else 0)"
  by pat_completeness auto
termination
  by (relation "measure (\<lambda>(eq, m, L, R, key). R - L)") auto

declare T_search.simps [simp del]

function T_equal_cstr :: "memory \<Rightarrow> char_ptr \<Rightarrow> char_ptr \<Rightarrow> nat" where
  "T_equal_cstr mem a b =
     (if in_bounds mem a \<and> in_bounds mem b then
        (if peek mem a = peek mem b then
           (if peek mem a = CHR 0x00 then 1
            else 1 + T_equal_cstr mem (advance a) (advance b))
         else 1)
      else 1)"
  by pat_completeness auto
termination
  by (relation "measure (\<lambda>(mem, a, b). length (mem ! fst a) - snd a)")
     (auto simp: in_bounds_def advance_def)

declare T_equal_cstr.simps [simp del]

subsection \<open>The programs of main.cpp\<close>

text \<open>
  \<open>example_simple\<close> builds a \<open>hash_map<2, const char*, int>\<close> from the literals
  \<open>"key1"\<close> and \<open>"key2"\<close> and looks up \<open>"key1"\<close>, \<open>"key2"\<close> and \<open>"key3"\<close>. Arrays 0 and 1
  of \<open>example_mem\<close> are the literals of the constructor call, arrays 2 to 4 those
  of the lookups.
\<close>

definition example_mem :: memory where
  "example_mem =
     [''key1'' @ [CHR 0x00], ''key2'' @ [CHR 0x00],
      ''key1'' @ [CHR 0x00], ''key2'' @ [CHR 0x00], ''key3'' @ [CHR 0x00]]"

definition example_elements :: "(char_ptr \<times> int) list" where
  "example_elements = [((0, 0), 1), ((1, 0), 2)]"

definition example_map :: "(char_ptr, int) hash_map" where
  "example_map = \<lparr>N = 2, data = example_elements\<rparr>"

text \<open>
  \<open>example_advanced\<close> builds a \<open>hash_map<3, std::string_view, std::string_view>\<close>;
  a \<open>string_view\<close> compares by content, so it is a \<open>string\<close> here.
\<close>

definition advanced_elements :: "(string \<times> string) list" where
  "advanced_elements =
     [(''key1'', ''value1''), (''key2'', ''value2''), (''key3'', ''value3'')]"

definition advanced_map :: "(string, string) hash_map" where
  "advanced_map = \<lparr>N = 3, data = advanced_elements\<rparr>"

section \<open>Properties of the scan, the string comparison and the iteration\<close>

lemma search_hit_or_miss:
  assumes "R \<le> length (data m)" and "search eq m L R k = Inr p"
  shows "(p = cend m \<and> (\<forall>j. L \<le> j \<and> j < R \<longrightarrow> eq (fst (data m ! j)) k = Inr False))
       \<or> (L \<le> p \<and> p < R \<and> eq (fst (data m ! p)) k = Inr True
            \<and> (\<forall>j. L \<le> j \<and> j < p \<longrightarrow> eq (fst (data m ! j)) k = Inr False))"
  using assms
proof (induction eq m L R k rule: search.induct)
  case (1 eq m L R key)
  show ?case
  proof (cases "L < R")
    case False
    with "1.prems" show ?thesis by (auto simp: search.simps)
  next
    case True
    with "1.prems" have inb: "L < length (data m)" by simp
    show ?thesis
    proof (cases "eq (fst (data m ! L)) key")
      case (Inl e)
      with True inb "1.prems" show ?thesis by (simp add: search.simps)
    next
      case (Inr b)
      show ?thesis
      proof (cases b)
        case True
        with \<open>L < R\<close> inb Inr "1.prems" have "p = L" by (simp add: search.simps cbegin_def)
        with \<open>L < R\<close> Inr True show ?thesis by auto
      next
        case False
        with \<open>L < R\<close> inb Inr "1.prems" have rec: "search eq m (L + 1) R key = Inr p"
          by (simp add: search.simps)
        from "1.IH"[OF \<open>L < R\<close> inb Inr False "1.prems"(1) rec]
        have IH: "(p = cend m \<and> (\<forall>j. L + 1 \<le> j \<and> j < R \<longrightarrow> eq (fst (data m ! j)) key = Inr False))
       \<or> (L + 1 \<le> p \<and> p < R \<and> eq (fst (data m ! p)) key = Inr True
            \<and> (\<forall>j. L + 1 \<le> j \<and> j < p \<longrightarrow> eq (fst (data m ! j)) key = Inr False))" .
        have step: "\<And>j. L \<le> j \<Longrightarrow> j = L \<or> L + 1 \<le> j" by arith
        from IH Inr False step show ?thesis
          by (metis add_leD1)
      qed
    qed
  qed
qed

lemma search_defined:
  assumes "R \<le> length (data m)"
    and "\<forall>j. L \<le> j \<and> j < R \<longrightarrow> (\<exists>b. eq (fst (data m ! j)) k = Inr b)"
  shows "\<exists>p. search eq m L R k = Inr p"
  using assms
proof (induction eq m L R k rule: search.induct)
  case (1 eq m L R key)
  show ?case
  proof (cases "L < R")
    case False
    then show ?thesis by (simp add: search.simps)
  next
    case True
    with "1.prems" have inb: "L < length (data m)" by simp
    from True "1.prems"(2) obtain b where b: "eq (fst (data m ! L)) key = Inr b" by auto
    show ?thesis
    proof (cases b)
      case True
      with \<open>L < R\<close> inb b show ?thesis by (simp add: search.simps)
    next
      case False
      from "1.prems"(2) have "\<forall>j. L + 1 \<le> j \<and> j < R \<longrightarrow> (\<exists>b. eq (fst (data m ! j)) key = Inr b)"
        by auto
      from "1.IH"[OF \<open>L < R\<close> inb b False "1.prems"(1) this]
      show ?thesis using \<open>L < R\<close> inb b False by (simp add: search.simps)
    qed
  qed
qed

lemma search_finds:
  assumes "R \<le> length (data m)" and "L \<le> p" and "p < R"
    and "eq (fst (data m ! p)) k = Inr True"
    and "\<forall>j. L \<le> j \<and> j < p \<longrightarrow> eq (fst (data m ! j)) k = Inr False"
  shows "search eq m L R k = Inr p"
  using assms
proof (induction eq m L R k rule: search.induct)
  case (1 eq m L R key)
  from "1.prems" have LR: "L < R" and inb: "L < length (data m)" by simp_all
  show ?case
  proof (cases "L = p")
    case True
    with LR inb "1.prems"(4) show ?thesis by (simp add: search.simps cbegin_def)
  next
    case False
    with "1.prems" have here: "eq (fst (data m ! L)) key = Inr False" by simp
    from False "1.prems" have "L + 1 \<le> p"
      and "\<forall>j. L + 1 \<le> j \<and> j < p \<longrightarrow> eq (fst (data m ! j)) key = Inr False" by simp_all
    from "1.IH"[OF LR inb here _ "1.prems"(1) this(1) "1.prems"(3,4) this(2)]
    have "search eq m (L + 1) R key = Inr p" by simp
    with LR inb here show ?thesis by (simp add: search.simps)
  qed
qed

lemma search_misses:
  assumes "R \<le> length (data m)"
    and "\<forall>j. L \<le> j \<and> j < R \<longrightarrow> eq (fst (data m ! j)) k = Inr False"
  shows "search eq m L R k = Inr (cend m)"
  using assms
proof (induction eq m L R k rule: search.induct)
  case (1 eq m L R key)
  show ?case
  proof (cases "L < R")
    case False
    then show ?thesis by (simp add: search.simps)
  next
    case True
    with "1.prems" have inb: "L < length (data m)"
      and here: "eq (fst (data m ! L)) key = Inr False" by simp_all
    from "1.prems" have "\<forall>j. L + 1 \<le> j \<and> j < R \<longrightarrow> eq (fst (data m ! j)) key = Inr False"
      by simp
    from "1.IH"[OF True inb here _ "1.prems"(1) this]
    have "search eq m (L + 1) R key = Inr (cend m)" by simp
    with True inb here show ?thesis by (simp add: search.simps)
  qed
qed

lemma make_hash_map_Inr:
  "make_hash_map n elements = Inr m \<longleftrightarrow> 0 < n \<and> n = length elements \<and> m = \<lparr>N = n, data = elements\<rparr>"
  by (auto simp: make_hash_map_def)

lemma spec_c_str_step:
  assumes "spec_c_str mem p = Some s"
  shows "in_bounds mem p"
    and "peek mem p = CHR 0x00 \<Longrightarrow> s = [CHR 0x00]"
    and "peek mem p \<noteq> CHR 0x00 \<Longrightarrow> \<exists>s'. spec_c_str mem (advance p) = Some s' \<and> s = peek mem p # s'"
proof -
  from assms have blk: "fst p < length mem"
    and tp: "spec_terminated_prefix (drop (snd p) (mem ! fst p)) = Some s"
    by (auto simp: spec_c_str_def split: if_splits)
  have off: "snd p < length (mem ! fst p)"
  proof (rule ccontr)
    assume "\<not> snd p < length (mem ! fst p)"
    then have "drop (snd p) (mem ! fst p) = []" by simp
    with tp show False by simp
  qed
  from blk off show "in_bounds mem p" by (simp add: in_bounds_def)
  from off have split: "drop (snd p) (mem ! fst p) = peek mem p # drop (Suc (snd p)) (mem ! fst p)"
    by (simp add: peek_def Cons_nth_drop_Suc)
  { assume "peek mem p = CHR 0x00"
    with tp split show "s = [CHR 0x00]" by simp }
  { assume "peek mem p \<noteq> CHR 0x00"
    with tp split blk show "\<exists>s'. spec_c_str mem (advance p) = Some s' \<and> s = peek mem p # s'"
      by (auto simp: spec_c_str_def advance_def) }
qed

lemma equal_cstr_content:
  assumes "spec_c_str mem a = Some s" and "spec_c_str mem b = Some t"
  shows "equal_cstr mem a b = Inr (s = t)"
  using assms
proof (induction mem a b arbitrary: s t rule: equal_cstr.induct)
  case (1 mem a b)
  note A = spec_c_str_step[OF "1.prems"(1)] and B = spec_c_str_step[OF "1.prems"(2)]
  have inb: "in_bounds mem a \<and> in_bounds mem b" using A(1) B(1) by simp
  show ?case
  proof (cases "peek mem a = peek mem b")
    case False
    have "s \<noteq> t"
    proof
      assume "s = t"
      with A(2,3) B(2,3) False show False by (cases "peek mem a = CHR 0x00"; cases "peek mem b = CHR 0x00") auto
    qed
    with inb False show ?thesis by (simp add: equal_cstr.simps)
  next
    case True
    show ?thesis
    proof (cases "peek mem a = CHR 0x00")
      case z: True
      with True A(2) B(2) have "s = t" by simp
      with inb True z show ?thesis by (simp add: equal_cstr.simps)
    next
      case nz: False
      with True A(3) B(3) obtain s' t' where
        s': "spec_c_str mem (advance a) = Some s'" "s = peek mem a # s'" and
        t': "spec_c_str mem (advance b) = Some t'" "t = peek mem b # t'" by auto
      from "1.IH"[OF inb True nz s'(1) t'(1)]
      have "equal_cstr mem (advance a) (advance b) = Inr (s' = t')" .
      with inb True nz s'(2) t'(2) show ?thesis by (simp add: equal_cstr.simps)
    qed
  qed
qed

lemma T_equal_cstr_bound:
  assumes "spec_c_str mem a = Some s" and "spec_c_str mem b = Some t"
  shows "T_equal_cstr mem a b \<le> min (length s) (length t)"
  using assms
proof (induction mem a b arbitrary: s t rule: T_equal_cstr.induct)
  case (1 mem a b)
  note A = spec_c_str_step[OF "1.prems"(1)] and B = spec_c_str_step[OF "1.prems"(2)]
  have inb: "in_bounds mem a \<and> in_bounds mem b" using A(1) B(1) by simp
  have pos: "1 \<le> length s" "1 \<le> length t"
    using A(2,3) B(2,3) by (cases "peek mem a = CHR 0x00"; cases "peek mem b = CHR 0x00"; auto)+
  show ?case
  proof (cases "peek mem a = peek mem b \<and> peek mem a \<noteq> CHR 0x00")
    case False
    with inb have "T_equal_cstr mem a b = 1" by (auto simp: T_equal_cstr.simps)
    with pos show ?thesis by simp
  next
    case True
    then have e: "peek mem a = peek mem b" and nz: "peek mem a \<noteq> CHR 0x00" by blast+
    then have nz': "peek mem b \<noteq> CHR 0x00" by metis
    from A(3)[OF nz] B(3)[OF nz'] obtain s' t' where
      s': "spec_c_str mem (advance a) = Some s'" "s = peek mem a # s'" and
      t': "spec_c_str mem (advance b) = Some t'" "t = peek mem b # t'" by auto
    from "1.IH"[OF inb e nz s'(1) t'(1)]
    have "T_equal_cstr mem (advance a) (advance b) \<le> min (length s') (length t')" .
    with inb e nz s'(2) t'(2) show ?thesis by (simp add: T_equal_cstr.simps)
  qed
qed

lemma T_search_bound: "T_search eq m L R k \<le> R - L"
proof (induction eq m L R k rule: T_search.induct)
  case (1 eq m L R key)
  show ?case
  proof (cases "L < R \<and> L < length (data m)")
    case False
    then show ?thesis by (auto simp: T_search.simps)
  next
    case True
    then have LR: "L < R" and inb: "L < length (data m)" by simp_all
    show ?thesis
    proof (cases "eq (fst (data m ! L)) key")
      case (Inl e)
      with LR inb show ?thesis by (simp add: T_search.simps)
    next
      case (Inr b)
      show ?thesis
      proof (cases b)
        case True
        with LR inb Inr show ?thesis by (simp add: T_search.simps)
      next
        case False
        from "1.IH"[OF LR inb Inr False] LR inb Inr False show ?thesis
          by (simp add: T_search.simps)
      qed
    qed
  qed
qed

lemma for_range_drop:
  assumes "i \<le> length (data m)"
  shows "for_range m i (length (data m)) = Inr (drop i (data m))"
  using assms
proof (induction "length (data m) - i" arbitrary: i)
  case 0
  then show ?case by (simp add: for_range.simps)
next
  case (Suc d)
  then have lt: "i < length (data m)" and d: "d = length (data m) - (i + 1)" by simp_all
  from Suc.hyps(1)[OF d] lt
  have "for_range m (i + 1) (length (data m)) = Inr (drop (i + 1) (data m))" by simp
  with lt show ?case
    by (simp add: for_range.simps[of m i] deref_def Cons_nth_drop_Suc)
qed

lemma find_leftmost:
  assumes "make_hash_map n elements = Inr m" and "p < n"
    and "eq (fst (elements ! p)) k = Inr True"
    and "\<forall>j<p. eq (fst (elements ! j)) k = Inr False"
  shows "find_hm eq m k = Inr p"
proof -
  from assms(1) have m: "N m = n" "data m = elements" "length elements = n"
    by (auto simp: make_hash_map_Inr)
  have "search eq m 0 (N m) k = Inr p"
    by (rule search_finds) (use assms m in auto)
  then show ?thesis by (simp add: find_hm_def)
qed

lemma find_hit_or_miss:
  assumes "make_hash_map n elements = Inr m" and "find_hm eq m k = Inr p"
  shows "(p = cend m \<and> (\<forall>j<n. eq (fst (elements ! j)) k = Inr False))
       \<or> (p < n \<and> eq (fst (elements ! p)) k = Inr True
            \<and> (\<forall>j<p. eq (fst (elements ! j)) k = Inr False))"
proof -
  from assms(1) have m: "N m = n" "data m = elements" "length elements = n"
    by (auto simp: make_hash_map_Inr)
  have bound: "N m \<le> length (data m)" using m by simp
  from assms(2) have "search eq m 0 (N m) k = Inr p" by (simp add: find_hm_def)
  from search_hit_or_miss[OF bound this] m show ?thesis by auto
qed

lemma at_of_find:
  "find_hm eq m k = Inr p \<Longrightarrow> p < length (data m) \<Longrightarrow> at eq dflt m k = Inr (True, Element p)"
  by (simp add: at_def cend_def second_of_def)

lemma at_of_find_end:
  "find_hm eq m k = Inr (cend m) \<Longrightarrow> at eq dflt m k = Inr (False, Expired_temporary dflt)"
  by (simp add: at_def)

lemma subscript_of_find:
  "find_hm eq m k = Inr p \<Longrightarrow> p < length (data m) \<Longrightarrow> subscript eq m k = Inr (Element p)"
  by (simp add: subscript_def second_of_def)

lemma subscript_of_find_end:
  "find_hm eq m k = Inr (cend m) \<Longrightarrow> subscript eq m k = Inl Out_of_bounds"
  by (simp add: subscript_def second_of_def cend_def)

lemma contains_of_find:
  "find_hm eq m k = Inr it \<Longrightarrow> contains eq m k = Inr (it \<noteq> cend m)"
  by (simp add: find_hm_def contains_def)

lemma at_absent_key:
  assumes "make_hash_map n elements = Inr m"
    and "\<forall>j<n. eq (fst (elements ! j)) k = Inr False"
  shows "at eq dflt m k = Inr (False, Expired_temporary dflt)"
    and "read_ref m (Expired_temporary dflt) = Inl Dangling_reference"
proof -
  from assms(1) have m: "N m = n" "data m = elements" "length elements = n"
    by (auto simp: make_hash_map_Inr)
  have "search eq m 0 (N m) k = Inr (cend m)"
    by (rule search_misses) (use assms(2) m in auto)
  then have "find_hm eq m k = Inr (cend m)" by (simp add: find_hm_def)
  then show "at eq dflt m k = Inr (False, Expired_temporary dflt)" by (rule at_of_find_end)
  show "read_ref m (Expired_temporary dflt) = Inl Dangling_reference" by simp
qed

lemma find_absent:
  assumes "make_hash_map n elements = Inr m"
    and "\<forall>j<n. eq (fst (elements ! j)) k = Inr False"
  shows "find_hm eq m k = Inr (cend m)"
proof -
  from assms(1) have m: "N m = n" "data m = elements" "length elements = n"
    by (auto simp: make_hash_map_Inr)
  have "search eq m 0 (N m) k = Inr (cend m)"
    by (rule search_misses) (use assms(2) m in auto)
  then show ?thesis by (simp add: find_hm_def)
qed

lemma const_char_key_comparisons:
  assumes keys: "\<forall>i<n. spec_c_str mem (fst (elements ! i)) \<noteq> None"
    and b: "spec_c_str mem b = Some t"
  shows "\<forall>i<n. equal_overload Const_char_pointer mem (fst (elements ! i)) b
           = Inr (spec_c_str mem (fst (elements ! i)) = Some t)"
proof (intro allI impI)
  fix i assume "i < n"
  with keys obtain s where s: "spec_c_str mem (fst (elements ! i)) = Some s" by auto
  from equal_cstr_content[OF s b] s
  show "equal_overload Const_char_pointer mem (fst (elements ! i)) b
           = Inr (spec_c_str mem (fst (elements ! i)) = Some t)"
    by (simp add: equal_overload_def)
qed

lemma find_const_char_key:
  assumes made: "make_hash_map n elements = Inr m"
    and keys: "\<forall>i<n. spec_c_str mem (fst (elements ! i)) \<noteq> None"
    and b: "spec_c_str mem b = Some t"
  shows "find_hm (equal_overload Const_char_pointer mem) m b =
           Inr (if \<exists>i<n. spec_c_str mem (fst (elements ! i)) = Some t
                then (LEAST i. i < n \<and> spec_c_str mem (fst (elements ! i)) = Some t)
                else cend m)"
proof -
  note cmp = const_char_key_comparisons[OF keys b]
  show ?thesis
  proof (cases "\<exists>i<n. spec_c_str mem (fst (elements ! i)) = Some t")
    case True
    define p where "p = (LEAST i. i < n \<and> spec_c_str mem (fst (elements ! i)) = Some t)"
    from True have ex: "\<exists>i. i < n \<and> spec_c_str mem (fst (elements ! i)) = Some t" by blast
    from LeastI_ex[OF ex] have p: "p < n" "spec_c_str mem (fst (elements ! p)) = Some t"
      by (simp_all add: p_def)
    have before: "\<forall>j<p. spec_c_str mem (fst (elements ! j)) \<noteq> Some t"
    proof (intro allI impI)
      fix j assume "j < p"
      then have "\<not> (j < n \<and> spec_c_str mem (fst (elements ! j)) = Some t)"
        unfolding p_def by (rule not_less_Least)
      with \<open>j < p\<close> p(1) show "spec_c_str mem (fst (elements ! j)) \<noteq> Some t" by simp
    qed
    from cmp p have hit: "equal_overload Const_char_pointer mem (fst (elements ! p)) b = Inr True"
      by simp
    from cmp before p(1)
    have miss: "\<forall>j<p. equal_overload Const_char_pointer mem (fst (elements ! j)) b = Inr False"
      by simp
    have "find_hm (equal_overload Const_char_pointer mem) m b = Inr p"
      using made p(1) hit miss
        find_leftmost[of n elements m p "equal_overload Const_char_pointer mem" b] by blast
    with True show ?thesis by (simp add: p_def)
  next
    case False
    with cmp have "\<forall>j<n. equal_overload Const_char_pointer mem (fst (elements ! j)) b = Inr False"
      by simp
    with made have "find_hm (equal_overload Const_char_pointer mem) m b = Inr (cend m)"
      using find_absent[of n elements m "equal_overload Const_char_pointer mem" b] by blast
    with False show ?thesis by auto
  qed
qed

section \<open>The example programs, evaluated\<close>

lemma example_map_made: "make_hash_map 2 example_elements = Inr example_map"
  by (simp add: make_hash_map_def example_map_def example_elements_def)

lemma advanced_map_made: "make_hash_map 3 advanced_elements = Inr advanced_map"
  by (simp add: make_hash_map_def advanced_map_def advanced_elements_def)

lemma example_key1: "equal_cstr example_mem (0, 0) (2, 0) = Inr True"
  by code_simp

lemma example_key2:
  "equal_cstr example_mem (0, 0) (3, 0) = Inr False"
  "equal_cstr example_mem (Suc 0, 0) (3, 0) = Inr True"
  by code_simp+

lemma example_key3:
  "equal_cstr example_mem (0, 0) (4, 0) = Inr False"
  "equal_cstr example_mem (Suc 0, 0) (4, 0) = Inr False"
  by code_simp+

lemma example_contains_key2: "contains (equal_cstr example_mem) example_map (3, 0) = Inr True"
  by code_simp

lemma example_find_key2: "find_hm (equal_cstr example_mem) example_map (3, 0) = Inr 1"
  by code_simp

lemma example_contains_key3: "contains (equal_cstr example_mem) example_map (4, 0) = Inr False"
  by code_simp

lemma example_T_search: "T_search (equal_cstr example_mem) example_map 0 2 (4, 0) = 2"
  by code_simp

lemma example_T_equal_cstr: "T_equal_cstr example_mem (0, 0) (3, 0) = 4"
  by code_simp

lemma example_c_str:
  "spec_c_str example_mem (0, 0) = Some (''key1'' @ [CHR 0x00])"
  "spec_c_str example_mem (3, 0) = Some (''key2'' @ [CHR 0x00])"
  by (simp_all add: spec_c_str_def example_mem_def)

lemma example_keys_terminated:
  "\<forall>i<2. spec_c_str example_mem (fst (example_elements ! i)) \<noteq> None"
proof -
  have less2: "\<And>j::nat. j < 2 \<longleftrightarrow> j = 0 \<or> j = Suc 0" by auto
  show ?thesis
    by (simp add: less2 example_elements_def spec_c_str_def example_mem_def)
qed

lemma example_c_str_lookup_key1:
  "spec_c_str example_mem (2, 0) = Some (''key1'' @ [CHR 0x00])"
  by (simp add: spec_c_str_def example_mem_def)

section \<open>The claims\<close>

text \<open>
  Claim C1. For a container constructed from \<open>n\<close> pairs and any key \<open>k\<close>, \<open>find\<close>
  returns a position \<open>p\<close> exactly when \<open>p\<close> is the first entry, from the left, whose
  key equals \<open>k\<close> under the equality of the container, or when no entry's key equals
  \<open>k\<close> and \<open>p\<close> is the end iterator.
\<close>

theorem find_first_match:
  assumes "make_hash_map n elements = Inr m"
  shows "find_hm eq m k = Inr p \<longleftrightarrow>
           ((p < n \<and> eq (fst (elements ! p)) k = Inr True
              \<and> (\<forall>j<p. eq (fst (elements ! j)) k = Inr False))
            \<or> (p = cend m \<and> (\<forall>j<n. eq (fst (elements ! j)) k = Inr False)))"
proof -
  from assms have m: "N m = n" "data m = elements" "length elements = n"
    by (auto simp: make_hash_map_Inr)
  have bound: "N m \<le> length (data m)" using m by simp
  show ?thesis
  proof
    assume "find_hm eq m k = Inr p"
    then have "search eq m 0 (N m) k = Inr p" by (simp add: find_hm_def)
    from search_hit_or_miss[OF bound this] show
      "(p < n \<and> eq (fst (elements ! p)) k = Inr True
              \<and> (\<forall>j<p. eq (fst (elements ! j)) k = Inr False))
         \<or> (p = cend m \<and> (\<forall>j<n. eq (fst (elements ! j)) k = Inr False))"
      using m by auto
  next
    assume "(p < n \<and> eq (fst (elements ! p)) k = Inr True
              \<and> (\<forall>j<p. eq (fst (elements ! j)) k = Inr False))
         \<or> (p = cend m \<and> (\<forall>j<n. eq (fst (elements ! j)) k = Inr False))"
    then show "find_hm eq m k = Inr p"
    proof
      assume hit: "p < n \<and> eq (fst (elements ! p)) k = Inr True
              \<and> (\<forall>j<p. eq (fst (elements ! j)) k = Inr False)"
      have "search eq m 0 (N m) k = Inr p"
        by (rule search_finds[OF bound]) (use hit m in auto)
      then show ?thesis by (simp add: find_hm_def)
    next
      assume miss: "p = cend m \<and> (\<forall>j<n. eq (fst (elements ! j)) k = Inr False)"
      have "search eq m 0 (N m) k = Inr (cend m)"
        by (rule search_misses[OF bound]) (use miss m in auto)
      with miss show ?thesis by (simp add: find_hm_def)
    qed
  qed
qed

theorem find_first_match_witness:
  "make_hash_map 2 example_elements = Inr example_map
   \<and> find_hm (equal_cstr example_mem) example_map (3, 0) = Inr 1
   \<and> find_hm (equal_cstr example_mem) example_map (4, 0) = Inr (cend example_map)"
proof -
  have less2: "\<And>j::nat. j < 2 \<longleftrightarrow> j = 0 \<or> j = 1" by auto
  have hit: "(1::nat) < 2 \<and> equal_cstr example_mem (fst (example_elements ! 1)) (3, 0) = Inr True
      \<and> (\<forall>j<1. equal_cstr example_mem (fst (example_elements ! j)) (3, 0) = Inr False)"
    by (simp add: example_elements_def example_key2)
  have miss: "\<forall>j<2. equal_cstr example_mem (fst (example_elements ! j)) (4, 0) = Inr False"
    by (simp add: less2 example_elements_def example_key3)
  from find_first_match[OF example_map_made, of "equal_cstr example_mem" "(3, 0)" 1] hit
  have a: "find_hm (equal_cstr example_mem) example_map (3, 0) = Inr 1" by blast
  from find_first_match[OF example_map_made, of "equal_cstr example_mem" "(4, 0)" "cend example_map"] miss
  have b: "find_hm (equal_cstr example_mem) example_map (4, 0) = Inr (cend example_map)" by blast
  from example_map_made a b show ?thesis by simp
qed

text \<open>
  Claim C2. The claim is that \<open>at\<close> returns \<open>(true, v)\<close> with the value of the first
  entry whose key equals the key, and \<open>(false, defaultValue)\<close> when there is none,
  without a fault. In \<open>example_simple\<close>, \<open>at("key1")\<close> returns true with a reference
  to the first entry, which reads as 1. For the absent \<open>"key3"\<close> the flag is false
  and \<open>at\<close> itself faults nowhere, but the second component is the reference to
  the temporary of the return statement, and no value can be read through it.
\<close>

theorem at_absent_key_expired_reference:
  "at (equal_cstr example_mem) 0 example_map (2, 0) = Inr (True, Element 0)
   \<and> read_ref example_map (Element 0) = Inr 1
   \<and> at (equal_cstr example_mem) 0 example_map (4, 0) = Inr (False, Expired_temporary 0)
   \<and> read_ref example_map (Expired_temporary 0) = Inl Dangling_reference"
proof -
  have a: "at (equal_cstr example_mem) 0 example_map (2, 0) = Inr (True, Element 0)"
    by code_simp
  have b: "read_ref example_map (Element 0) = Inr 1"
    by (simp add: example_map_def example_elements_def)
  have c: "at (equal_cstr example_mem) 0 example_map (4, 0) = Inr (False, Expired_temporary 0)"
    by code_simp
  have d: "read_ref example_map (Expired_temporary (0::int)) = Inl Dangling_reference"
    by simp
  from a b c d show ?thesis by (intro conjI)
qed

text \<open>
  Claim C3. \<open>contains\<close> returns true exactly when \<open>find\<close> returns a position other
  than the end iterator, false exactly when \<open>find\<close> returns the end iterator, and
  faults exactly when \<open>find\<close> does; its result is a function of \<open>N\<close>, \<open>data\<close> and
  the key.
\<close>

theorem contains_iff_find:
  "(contains eq m k = Inr True \<longleftrightarrow> (\<exists>it. find_hm eq m k = Inr it \<and> it \<noteq> cend m))
   \<and> (contains eq m k = Inr False \<longleftrightarrow> find_hm eq m k = Inr (cend m))
   \<and> (\<forall>e. contains eq m k = Inl e \<longleftrightarrow> find_hm eq m k = Inl e)
   \<and> (\<forall>m'. N m' = N m \<and> data m' = data m \<longrightarrow> contains eq m' k = contains eq m k)"
proof -
  have same: "\<forall>m'. N m' = N m \<and> data m' = data m \<longrightarrow> contains eq m' k = contains eq m k"
  proof (intro allI impI)
    fix m' :: "('a, 'b) hash_map"
    assume "N m' = N m \<and> data m' = data m"
    then have "m' = m" by simp
    then show "contains eq m' k = contains eq m k" by simp
  qed
  have rel: "contains eq m k = (case find_hm eq m k of Inl e \<Rightarrow> Inl e | Inr it \<Rightarrow> Inr (it \<noteq> cend m))"
    by (simp add: find_hm_def contains_def)
  have t: "contains eq m k = Inr True \<longleftrightarrow> (\<exists>it. find_hm eq m k = Inr it \<and> it \<noteq> cend m)"
    using rel by (cases "find_hm eq m k") auto
  have f: "contains eq m k = Inr False \<longleftrightarrow> find_hm eq m k = Inr (cend m)"
    using rel by (cases "find_hm eq m k") auto
  have e: "\<forall>e. contains eq m k = Inl e \<longleftrightarrow> find_hm eq m k = Inl e"
    using rel by (cases "find_hm eq m k") auto
  from t f e same show ?thesis by (intro conjI)
qed

theorem contains_iff_find_witness:
  "N example_map = 2 \<and> data example_map = example_elements
   \<and> find_hm (equal_cstr example_mem) example_map (2, 0) = Inr 0
   \<and> contains (equal_cstr example_mem) example_map (2, 0) = Inr True
   \<and> contains (equal_cstr example_mem) \<lparr>N = 2, data = example_elements\<rparr> (2, 0) = Inr True"
proof -
  have f: "find_hm (equal_cstr example_mem) example_map (2, 0) = Inr 0"
    by (simp add: find_hm_def search.simps cbegin_def example_map_def example_elements_def
          example_key1)
  have ne: "(0::nat) \<noteq> cend example_map"
    by (simp add: cend_def example_map_def example_elements_def)
  have nd: "N example_map = 2 \<and> data example_map = example_elements"
    by (simp add: example_map_def)
  note t = contains_iff_find[of "equal_cstr example_mem" example_map "(2, 0)"]
  from t f ne have c: "contains (equal_cstr example_mem) example_map (2, 0) = Inr True"
    by blast
  from t have "\<forall>m'. N m' = N example_map \<and> data m' = data example_map \<longrightarrow>
      contains (equal_cstr example_mem) m' (2, 0) = contains (equal_cstr example_mem) example_map (2, 0)"
    by blast
  then have "N \<lparr>N = 2, data = example_elements\<rparr> = N example_map
      \<and> data \<lparr>N = 2, data = example_elements\<rparr> = data example_map \<longrightarrow>
      contains (equal_cstr example_mem) \<lparr>N = 2, data = example_elements\<rparr> (2, 0)
        = contains (equal_cstr example_mem) example_map (2, 0)"
    by (rule spec)
  with nd have "contains (equal_cstr example_mem) \<lparr>N = 2, data = example_elements\<rparr> (2, 0)
      = contains (equal_cstr example_mem) example_map (2, 0)"
    by simp
  with c have c': "contains (equal_cstr example_mem) \<lparr>N = 2, data = example_elements\<rparr> (2, 0) = Inr True"
    by simp
  from nd f c c' show ?thesis by (intro conjI) simp_all
qed

text \<open>
  Claim C4. In a map with keys of type \<open>const char*\<close>, all of them null-terminated
  strings, the equality that \<open>find\<close> and \<open>contains\<close> use returns true for two
  null-terminated strings exactly when their character sequences, up to and
  including the terminator, are the same, so that two different pointers to equal
  contents compare equal. Lookup then goes by contents alone: \<open>contains\<close> is true
  exactly when some stored key has the contents of the key looked up, \<open>find\<close>
  returns the leftmost such entry, and two lookup keys with equal contents give
  the same results, whatever the pointers.
\<close>

theorem const_char_keys_compare_by_content:
  assumes "make_hash_map n elements = Inr m"
    and "\<forall>i<n. spec_c_str mem (fst (elements ! i)) \<noteq> None"
    and "spec_c_str mem a = Some s" and "spec_c_str mem b = Some t"
  shows "equal_overload Const_char_pointer mem a b = Inr (s = t)
     \<and> (a \<noteq> b \<and> s = t \<longrightarrow> equal_overload Const_char_pointer mem a b = Inr True)
     \<and> contains (equal_overload Const_char_pointer mem) m b
          = Inr (\<exists>i<n. spec_c_str mem (fst (elements ! i)) = Some t)
     \<and> (\<forall>p<n. spec_c_str mem (fst (elements ! p)) = Some t
            \<and> (\<forall>j<p. spec_c_str mem (fst (elements ! j)) \<noteq> Some t)
          \<longrightarrow> find_hm (equal_overload Const_char_pointer mem) m b = Inr p)
     \<and> (s = t \<longrightarrow>
          find_hm (equal_overload Const_char_pointer mem) m a
            = find_hm (equal_overload Const_char_pointer mem) m b
          \<and> contains (equal_overload Const_char_pointer mem) m a
            = contains (equal_overload Const_char_pointer mem) m b)"
proof -
  from assms(1) have m: "N m = n" "data m = elements" "length elements = n"
    by (auto simp: make_hash_map_Inr)
  have eq: "equal_overload Const_char_pointer mem a b = Inr (s = t)"
    using equal_cstr_content[OF assms(3,4)] by (simp add: equal_overload_def)
  then have ptr: "a \<noteq> b \<and> s = t \<longrightarrow> equal_overload Const_char_pointer mem a b = Inr True"
    by simp
  note fb = find_const_char_key[OF assms(1,2,4)]
  note fa = find_const_char_key[OF assms(1,2,3)]
  have least_lt: "(\<exists>i<n. spec_c_str mem (fst (elements ! i)) = Some t) \<Longrightarrow>
      (LEAST i. i < n \<and> spec_c_str mem (fst (elements ! i)) = Some t) < n"
  proof -
    assume "\<exists>i<n. spec_c_str mem (fst (elements ! i)) = Some t"
    then have "\<exists>i. i < n \<and> spec_c_str mem (fst (elements ! i)) = Some t" by blast
    from LeastI_ex[OF this] show ?thesis by simp
  qed
  have cb: "contains (equal_overload Const_char_pointer mem) m b
          = Inr (\<exists>i<n. spec_c_str mem (fst (elements ! i)) = Some t)"
  proof (cases "\<exists>i<n. spec_c_str mem (fst (elements ! i)) = Some t")
    case True
    with least_lt m have "(LEAST i. i < n \<and> spec_c_str mem (fst (elements ! i)) = Some t) \<noteq> cend m"
      by (simp add: cend_def)
    with contains_of_find[OF fb] True show ?thesis by simp
  next
    case False
    with contains_of_find[OF fb] show ?thesis by simp
  qed
  have left: "\<forall>p<n. spec_c_str mem (fst (elements ! p)) = Some t
            \<and> (\<forall>j<p. spec_c_str mem (fst (elements ! j)) \<noteq> Some t)
          \<longrightarrow> find_hm (equal_overload Const_char_pointer mem) m b = Inr p"
  proof (intro allI impI)
    fix p
    assume "p < n"
      and h: "spec_c_str mem (fst (elements ! p)) = Some t
            \<and> (\<forall>j<p. spec_c_str mem (fst (elements ! j)) \<noteq> Some t)"
    note cmp = const_char_key_comparisons[OF assms(2,4)]
    from cmp h \<open>p < n\<close>
    have hit: "equal_overload Const_char_pointer mem (fst (elements ! p)) b = Inr True"
      and miss: "\<forall>j<p. equal_overload Const_char_pointer mem (fst (elements ! j)) b = Inr False"
      by simp_all
    show "find_hm (equal_overload Const_char_pointer mem) m b = Inr p"
      using assms(1) \<open>p < n\<close> hit miss
        find_leftmost[of n elements m p "equal_overload Const_char_pointer mem" b] by blast
  qed
  have same: "s = t \<longrightarrow>
          find_hm (equal_overload Const_char_pointer mem) m a
            = find_hm (equal_overload Const_char_pointer mem) m b
          \<and> contains (equal_overload Const_char_pointer mem) m a
            = contains (equal_overload Const_char_pointer mem) m b"
  proof
    assume st: "s = t"
    from fa have "find_hm (equal_overload Const_char_pointer mem) m a =
           Inr (if \<exists>i<n. spec_c_str mem (fst (elements ! i)) = Some t
                then (LEAST i. i < n \<and> spec_c_str mem (fst (elements ! i)) = Some t)
                else cend m)"
      unfolding st .
    with fb have f: "find_hm (equal_overload Const_char_pointer mem) m a
            = find_hm (equal_overload Const_char_pointer mem) m b" by (simp only:)
    then show "find_hm (equal_overload Const_char_pointer mem) m a
            = find_hm (equal_overload Const_char_pointer mem) m b
          \<and> contains (equal_overload Const_char_pointer mem) m a
            = contains (equal_overload Const_char_pointer mem) m b"
      by (simp add: find_hm_def contains_def)
  qed
  from eq ptr cb left same show ?thesis by (intro conjI)
qed

theorem const_char_keys_compare_by_content_witness:
  "make_hash_map 2 example_elements = Inr example_map
   \<and> spec_c_str example_mem (0, 0) = Some (''key1'' @ [CHR 0x00])
   \<and> spec_c_str example_mem (2, 0) = Some (''key1'' @ [CHR 0x00])
   \<and> ((0, 0) :: char_ptr) \<noteq> (2, 0)
   \<and> equal_overload Const_char_pointer example_mem (0, 0) (2, 0) = Inr True
   \<and> contains (equal_overload Const_char_pointer example_mem) example_map (2, 0) = Inr True
   \<and> find_hm (equal_overload Const_char_pointer example_mem) example_map (2, 0) = Inr 0
   \<and> find_hm (equal_overload Const_char_pointer example_mem) example_map (0, 0) = Inr 0"
proof -
  note t = const_char_keys_compare_by_content[OF example_map_made example_keys_terminated
      example_c_str(1) example_c_str_lookup_key1]
  have ne: "((0, 0) :: char_ptr) \<noteq> (2, 0)" by simp
  from t ne have e: "equal_overload Const_char_pointer example_mem (0, 0) (2, 0) = Inr True"
    by blast
  have ex: "\<exists>i<2. spec_c_str example_mem (fst (example_elements ! i)) = Some (''key1'' @ [CHR 0x00])"
  proof (intro exI conjI)
    show "(0::nat) < 2" by simp
    show "spec_c_str example_mem (fst (example_elements ! 0)) = Some (''key1'' @ [CHR 0x00])"
      by (simp add: example_elements_def spec_c_str_def example_mem_def)
  qed
  from t have "contains (equal_overload Const_char_pointer example_mem) example_map (2, 0)
      = Inr (\<exists>i<2. spec_c_str example_mem (fst (example_elements ! i)) = Some (''key1'' @ [CHR 0x00]))"
    by blast
  with ex have c: "contains (equal_overload Const_char_pointer example_mem) example_map (2, 0) = Inr True"
    by simp
  have first: "(0::nat) < 2 \<and> spec_c_str example_mem (fst (example_elements ! 0)) = Some (''key1'' @ [CHR 0x00])
      \<and> (\<forall>j<0. spec_c_str example_mem (fst (example_elements ! j)) \<noteq> Some (''key1'' @ [CHR 0x00]))"
    by (simp add: example_elements_def spec_c_str_def example_mem_def)
  from t have "\<forall>p<2. spec_c_str example_mem (fst (example_elements ! p)) = Some (''key1'' @ [CHR 0x00])
            \<and> (\<forall>j<p. spec_c_str example_mem (fst (example_elements ! j)) \<noteq> Some (''key1'' @ [CHR 0x00]))
          \<longrightarrow> find_hm (equal_overload Const_char_pointer example_mem) example_map (2, 0) = Inr p"
    by blast
  with first have f: "find_hm (equal_overload Const_char_pointer example_mem) example_map (2, 0) = Inr 0"
    by blast
  from t have "find_hm (equal_overload Const_char_pointer example_mem) example_map (0, 0)
            = find_hm (equal_overload Const_char_pointer example_mem) example_map (2, 0)"
    by blast
  with f have f': "find_hm (equal_overload Const_char_pointer example_mem) example_map (0, 0) = Inr 0"
    by simp
  from example_map_made example_c_str(1) example_c_str_lookup_key1 ne e c f f'
  show ?thesis by (intro conjI)
qed

text \<open>
  The claim speaks of every null-terminated string key. With keys of type \<open>char*\<close>
  it fails: in the memory of \<open>example_simple\<close>, arrays 0 and 2 both hold \<open>"key1"\<close>,
  yet as \<open>char*\<close> keys the two pointers compare unequal and the lookup of the
  second in a map that stores the first finds nothing.
\<close>

theorem char_pointer_keys_compare_by_identity:
  "spec_c_str example_mem (0, 0) = Some (''key1'' @ [CHR 0x00])
   \<and> spec_c_str example_mem (2, 0) = Some (''key1'' @ [CHR 0x00])
   \<and> equal_overload Char_pointer example_mem (0, 0) (2, 0) = Inr False
   \<and> find_hm (equal_overload Char_pointer example_mem) example_map (2, 0) = Inr (cend example_map)
   \<and> contains (equal_overload Char_pointer example_mem) example_map (2, 0) = Inr False"
proof -
  have e: "equal_overload Char_pointer example_mem (0, 0) (2, 0) = Inr False"
    by (simp add: equal_overload_def equal_value_def)
  have f: "find_hm (equal_overload Char_pointer example_mem) example_map (2, 0) = Inr (cend example_map)"
    by code_simp
  have c: "contains (equal_overload Char_pointer example_mem) example_map (2, 0) = Inr False"
    by code_simp
  from example_c_str(1) example_c_str_lookup_key1 e f c show ?thesis by (intro conjI)
qed

text \<open>
  Claim C5. Construction is rejected whenever \<open>N\<close> is zero or the number of pairs
  supplied is not \<open>N\<close>; declaring \<open>N = 2\<close> and supplying one pair is rejected; and a
  container that is made holds exactly the pairs supplied, neither fewer nor more.
\<close>

theorem construction_rejected:
  "(n = 0 \<or> length elements \<noteq> n \<longrightarrow>
      (\<exists>e. make_hash_map n elements = (Inl e :: compile_error + ('k, 'v) hash_map))
      \<and> (\<forall>m :: ('k, 'v) hash_map. make_hash_map n elements \<noteq> Inr m))
   \<and> (\<forall>p. make_hash_map 2 [p] = (Inl Elements_size_mismatch :: compile_error + ('k, 'v) hash_map))
   \<and> (\<forall>m :: ('k, 'v) hash_map. make_hash_map n elements = Inr m \<longrightarrow>
         0 < n \<and> length elements = n \<and> N m = n \<and> data m = elements)"
  by (auto simp: make_hash_map_def)

theorem construction_rejected_witness:
  "make_hash_map 0 ([] :: (string \<times> int) list) = Inl N_should_be_positive
   \<and> make_hash_map 2 [(''key1'', 1 :: int)] = Inl Elements_size_mismatch
   \<and> make_hash_map 2 (tl advanced_elements) = Inr \<lparr>N = 2, data = tl advanced_elements\<rparr>"
proof -
  have a: "\<exists>e. make_hash_map 0 ([] :: (string \<times> int) list) = Inl e"
    using construction_rejected[of 0 "[] :: (string \<times> int) list"] by simp
  have b: "make_hash_map 2 [(''key1'', 1 :: int)] = Inl Elements_size_mismatch"
    using construction_rejected[of 2 "[(''key1'', 1 :: int)]"] by simp
  have c: "make_hash_map 2 (tl advanced_elements) = Inr \<lparr>N = 2, data = tl advanced_elements\<rparr>"
    by (simp add: make_hash_map_def advanced_elements_def)
  from a b c show ?thesis by (auto simp: make_hash_map_def)
qed

text \<open>
  Claim C6. For a constructed container and a key with \<open>contains\<close> true,
  \<open>operator[]\<close> returns the reference to the value of the first entry whose key
  equals the key, and the iterator it dereferences is not the end iterator. There
  is no existence check: with \<open>contains\<close> false it dereferences the end iterator.
\<close>

theorem subscript_unchecked:
  assumes "make_hash_map n elements = Inr m"
  shows "(contains eq m k = Inr True \<longrightarrow>
           (\<exists>p<n. find_hm eq m k = Inr p \<and> p \<noteq> cend m
              \<and> eq (fst (elements ! p)) k = Inr True
              \<and> (\<forall>j<p. eq (fst (elements ! j)) k = Inr False)
              \<and> subscript eq m k = Inr (Element p)
              \<and> read_ref m (Element p) = Inr (snd (elements ! p))))
       \<and> (contains eq m k = Inr False \<longrightarrow> subscript eq m k = Inl Out_of_bounds)"
proof (intro conjI impI)
  from assms have m: "N m = n" "data m = elements" "length elements = n"
    by (auto simp: make_hash_map_Inr)
  { assume c: "contains eq m k = Inr True"
    then obtain p where f: "find_hm eq m k = Inr p" and ne: "p \<noteq> cend m"
      by (cases "find_hm eq m k") (auto simp: contains_def find_hm_def)
    from find_hit_or_miss[OF assms f] ne
    have hit: "p < n" "eq (fst (elements ! p)) k = Inr True"
      "\<forall>j<p. eq (fst (elements ! j)) k = Inr False" by auto
    from hit(1) m have inb: "p < length (data m)" by simp
    from subscript_of_find[OF f inb] have s: "subscript eq m k = Inr (Element p)" .
    from inb m have r: "read_ref m (Element p) = Inr (snd (elements ! p))" by simp
    from f ne hit s r
    show "\<exists>p<n. find_hm eq m k = Inr p \<and> p \<noteq> cend m
              \<and> eq (fst (elements ! p)) k = Inr True
              \<and> (\<forall>j<p. eq (fst (elements ! j)) k = Inr False)
              \<and> subscript eq m k = Inr (Element p)
              \<and> read_ref m (Element p) = Inr (snd (elements ! p))" by blast }
  { assume c: "contains eq m k = Inr False"
    then have "find_hm eq m k = Inr (cend m)"
      by (cases "find_hm eq m k") (auto simp: contains_def find_hm_def)
    then show "subscript eq m k = Inl Out_of_bounds" by (rule subscript_of_find_end) }
qed

theorem subscript_unchecked_witness:
  "make_hash_map 2 example_elements = Inr example_map
   \<and> contains (equal_cstr example_mem) example_map (3, 0) = Inr True
   \<and> subscript (equal_cstr example_mem) example_map (3, 0) = Inr (Element 1)
   \<and> read_ref example_map (Element 1) = Inr 2
   \<and> contains (equal_cstr example_mem) example_map (4, 0) = Inr False
   \<and> subscript (equal_cstr example_mem) example_map (4, 0) = Inl Out_of_bounds"
proof -
  note t = subscript_unchecked[OF example_map_made, of "equal_cstr example_mem"]
  from t[of "(3, 0)"] example_contains_key2 example_find_key2
  have s: "subscript (equal_cstr example_mem) example_map (3, 0) = Inr (Element 1)" by auto
  from t[of "(4, 0)"] example_contains_key3
  have u: "subscript (equal_cstr example_mem) example_map (4, 0) = Inl Out_of_bounds" by blast
  have r: "read_ref example_map (Element 1) = Inr 2"
    by (simp add: example_map_def example_elements_def)
  from example_map_made example_contains_key2 s r example_contains_key3 u
  show ?thesis by (intro conjI)
qed

text \<open>
  Claim C7. For a container constructed from the pairs \<open>elements\<close>, the loop from
  \<open>begin()\<close> to \<open>end()\<close> yields exactly these pairs, \<open>N\<close> of them, in the order of
  construction. The loop returns no container, so it changes none, and running it
  again gives the same list.
\<close>

theorem iteration_in_construction_order:
  assumes "make_hash_map n elements = Inr m"
  shows "for_each m = Inr elements \<and> length elements = n
         \<and> begin_it m = 0 \<and> end_it m = n
         \<and> (\<forall>i<n. deref m (begin_it m + i) = Inr (elements ! i))"
proof -
  from assms have m: "N m = n" "data m = elements" "length elements = n"
    by (auto simp: make_hash_map_Inr)
  have "for_range m 0 (length (data m)) = Inr (drop 0 (data m))"
    by (rule for_range_drop) simp
  with m have "for_each m = Inr elements"
    by (simp add: for_each_def begin_it_def end_it_def cbegin_def cend_def)
  with m show ?thesis
    by (simp add: begin_it_def end_it_def cbegin_def cend_def deref_def)
qed

theorem iteration_in_construction_order_witness:
  "make_hash_map 3 advanced_elements = Inr advanced_map
   \<and> for_each advanced_map =
       Inr [(''key1'', ''value1''), (''key2'', ''value2''), (''key3'', ''value3'')]"
  using iteration_in_construction_order[OF advanced_map_made] advanced_map_made
  by (simp add: advanced_elements_def)

text \<open>
  Claim C8. For a container constructed with \<open>N \<ge> 1\<close> entries, \<open>size\<close> returns \<open>N\<close>;
  \<open>empty\<close> returns false for every container.
\<close>

theorem size_is_N_and_never_empty:
  assumes "make_hash_map n elements = Inr (m :: ('k, 'v) hash_map)"
  shows "1 \<le> n \<and> size_hm m = n \<and> \<not> empty_hm m
         \<and> (\<forall>m' :: ('k, 'v) hash_map. empty_hm m' = False)"
  using assms by (auto simp: make_hash_map_Inr size_hm_def empty_hm_def)

theorem size_is_N_and_never_empty_witness:
  "make_hash_map 3 advanced_elements = Inr advanced_map
   \<and> size_hm advanced_map = 3 \<and> \<not> empty_hm advanced_map"
  using size_is_N_and_never_empty[OF advanced_map_made] advanced_map_made by simp

text \<open>
  Claim C9. Every lookup terminates. The scan over \<open>[L, R)\<close> makes at most \<open>R - L\<close>
  key comparisons, so \<open>find\<close> makes at most \<open>N\<close>; where every comparison with a
  stored key is defined, \<open>find\<close> returns a position. The string comparison of two
  null-terminated strings returns a truth value after at most as many steps as the
  shorter string, terminator included, has characters.
\<close>

theorem lookups_terminate:
  "(make_hash_map n elements = Inr m \<longrightarrow>
      T_search eq m 0 (N m) k \<le> n
      \<and> ((\<forall>j<n. \<exists>b. eq (fst (elements ! j)) k = Inr b) \<longrightarrow>
            (\<exists>p\<le>n. find_hm eq m k = Inr p)))
   \<and> T_search eq m L R k \<le> R - L
   \<and> (spec_c_str mem a = Some s \<and> spec_c_str mem b = Some t \<longrightarrow>
        (\<exists>r. equal_cstr mem a b = Inr r)
        \<and> T_equal_cstr mem a b \<le> min (length s) (length t))"
proof (intro conjI impI)
  show "T_search eq m L R k \<le> R - L" by (rule T_search_bound)
next
  assume made: "make_hash_map n elements = Inr m"
  then have m: "N m = n" "data m = elements" "length elements = n"
    by (auto simp: make_hash_map_Inr)
  from T_search_bound[of eq m 0 "N m" k] m show "T_search eq m 0 (N m) k \<le> n" by simp
  assume "\<forall>j<n. \<exists>b. eq (fst (elements ! j)) k = Inr b"
  with m have "\<forall>j. 0 \<le> j \<and> j < N m \<longrightarrow> (\<exists>b. eq (fst (data m ! j)) k = Inr b)" by simp
  moreover from m have "N m \<le> length (data m)" by simp
  ultimately have "\<exists>p. search eq m 0 (N m) k = Inr p"
    using search_defined[of "N m" m 0 eq k] by blast
  then obtain p where p: "find_hm eq m k = Inr p"
    by (auto simp: find_hm_def)
  from find_hit_or_miss[OF made p] m have "p \<le> n" by (auto simp: cend_def)
  with p show "\<exists>p\<le>n. find_hm eq m k = Inr p" by blast
next
  assume "spec_c_str mem a = Some s \<and> spec_c_str mem b = Some t"
  then have st: "spec_c_str mem a = Some s" "spec_c_str mem b = Some t" by simp_all
  from equal_cstr_content[OF st] show "\<exists>r. equal_cstr mem a b = Inr r" by blast
  from T_equal_cstr_bound[OF st] show "T_equal_cstr mem a b \<le> min (length s) (length t)" .
qed

theorem lookups_terminate_witness:
  "make_hash_map 2 example_elements = Inr example_map
   \<and> T_search (equal_cstr example_mem) example_map 0 (N example_map) (4, 0) \<le> 2
   \<and> T_search (equal_cstr example_mem) example_map 0 2 (4, 0) = 2
   \<and> (\<exists>p\<le>2. find_hm (equal_cstr example_mem) example_map (4, 0) = Inr p)
   \<and> spec_c_str example_mem (0, 0) = Some (''key1'' @ [CHR 0x00])
   \<and> spec_c_str example_mem (3, 0) = Some (''key2'' @ [CHR 0x00])
   \<and> (\<exists>r. equal_cstr example_mem (0, 0) (3, 0) = Inr r)
   \<and> T_equal_cstr example_mem (0, 0) (3, 0) \<le> 5
   \<and> T_equal_cstr example_mem (0, 0) (3, 0) = 4"
proof -
  note t = lookups_terminate[of 2 example_elements example_map "equal_cstr example_mem" "(4, 0)"
      0 2 example_mem "(0, 0)" "''key1'' @ [CHR 0x00]" "(3, 0)" "''key2'' @ [CHR 0x00]"]
  have less2: "\<And>j::nat. j < 2 \<longleftrightarrow> j = 0 \<or> j = Suc 0" by auto
  have "\<forall>j<2. equal_cstr example_mem (fst (example_elements ! j)) (4, 0) = Inr False"
    by (simp add: less2 example_elements_def example_key3)
  then have defd: "\<forall>j<2. \<exists>b. equal_cstr example_mem (fst (example_elements ! j)) (4, 0) = Inr b"
    by blast
  from t example_map_made
  have a: "T_search (equal_cstr example_mem) example_map 0 (N example_map) (4, 0) \<le> 2" by blast
  from t example_map_made defd
  have b: "\<exists>p\<le>2. find_hm (equal_cstr example_mem) example_map (4, 0) = Inr p" by blast
  from t example_c_str
  have c: "(\<exists>r. equal_cstr example_mem (0, 0) (3, 0) = Inr r)
        \<and> T_equal_cstr example_mem (0, 0) (3, 0) \<le> min (length (''key1'' @ [CHR 0x00])) (length (''key2'' @ [CHR 0x00]))"
    by blast
  then have c1: "\<exists>r. equal_cstr example_mem (0, 0) (3, 0) = Inr r"
    and c2: "T_equal_cstr example_mem (0, 0) (3, 0) \<le> 5" by simp_all
  from example_map_made a example_T_search b example_c_str c1 c2 example_T_equal_cstr
  show ?thesis by (intro conjI)
qed

text \<open>
  Claim C10. Also with duplicate keys: when position \<open>p\<close> is the leftmost entry
  whose key equals \<open>k\<close>, \<open>find\<close> returns \<open>p\<close>, \<open>contains\<close> returns true, and \<open>at\<close> and
  \<open>operator[]\<close> return the reference to the value of entry \<open>p\<close>, whatever entries
  to the right of \<open>p\<close> hold.
\<close>

theorem leftmost_entry_wins:
  assumes "make_hash_map n elements = Inr m" and "p < n"
    and "eq (fst (elements ! p)) k = Inr True"
    and "\<forall>j<p. eq (fst (elements ! j)) k = Inr False"
  shows "find_hm eq m k = Inr p
         \<and> contains eq m k = Inr True
         \<and> at eq dflt m k = Inr (True, Element p)
         \<and> subscript eq m k = Inr (Element p)
         \<and> read_ref m (Element p) = Inr (snd (elements ! p))"
proof -
  from assms(1) have m: "N m = n" "data m = elements" "length elements = n"
    by (auto simp: make_hash_map_Inr)
  from assms(2) m have inb: "p < length (data m)" by simp
  have f: "find_hm eq m k = Inr p"
    using assms find_leftmost[of n elements m p eq k] by blast
  from contains_of_find[OF f] inb have c: "contains eq m k = Inr True" by (simp add: cend_def)
  from at_of_find[OF f inb] have a: "at eq dflt m k = Inr (True, Element p)" .
  from subscript_of_find[OF f inb] have s: "subscript eq m k = Inr (Element p)" .
  from inb m have r: "read_ref m (Element p) = Inr (snd (elements ! p))" by simp
  from f c a s r show ?thesis by (intro conjI)
qed

theorem leftmost_entry_wins_witness:
  "make_hash_map 3 [(''b'', 2 :: int), (''a'', 1), (''a'', 3)]
     = Inr \<lparr>N = 3, data = [(''b'', 2), (''a'', 1), (''a'', 3)]\<rparr>
   \<and> find_hm equal_value \<lparr>N = 3, data = [(''b'', 2 :: int), (''a'', 1), (''a'', 3)]\<rparr> ''a'' = Inr 1
   \<and> contains equal_value \<lparr>N = 3, data = [(''b'', 2 :: int), (''a'', 1), (''a'', 3)]\<rparr> ''a'' = Inr True
   \<and> at equal_value 0 \<lparr>N = 3, data = [(''b'', 2 :: int), (''a'', 1), (''a'', 3)]\<rparr> ''a''
       = Inr (True, Element 1)
   \<and> subscript equal_value \<lparr>N = 3, data = [(''b'', 2 :: int), (''a'', 1), (''a'', 3)]\<rparr> ''a''
       = Inr (Element 1)
   \<and> read_ref \<lparr>N = 3, data = [(''b'', 2 :: int), (''a'', 1), (''a'', 3)]\<rparr> (Element 1) = Inr 1"
proof -
  have made: "make_hash_map 3 [(''b'', 2 :: int), (''a'', 1), (''a'', 3)]
     = Inr \<lparr>N = 3, data = [(''b'', 2), (''a'', 1), (''a'', 3)]\<rparr>"
    by (simp add: make_hash_map_def)
  have p: "(1::nat) < 3" by simp
  have hit: "equal_value (fst ([(''b'', 2 :: int), (''a'', 1), (''a'', 3)] ! 1)) ''a'' = Inr True"
    by (simp add: equal_value_def)
  have before: "\<forall>j<1. equal_value (fst ([(''b'', 2 :: int), (''a'', 1), (''a'', 3)] ! j)) ''a'' = Inr False"
    by (simp add: equal_value_def)
  from leftmost_entry_wins[of 3 "[(''b'', 2 :: int), (''a'', 1), (''a'', 3)]"
      "\<lparr>N = 3, data = [(''b'', 2 :: int), (''a'', 1), (''a'', 3)]\<rparr>" 1 equal_value "''a''" 0]
    made p hit before
  show ?thesis by simp
qed

end
